theory Spec2Isabelle
  imports Complex_Main
begin

section \<open>Data model (types.ts)\<close>

text \<open>
  The source's \<open>number\<close> is an IEEE binary64 value; the model computes over \<open>real\<close>, where no
  operation rounds and NaN and the infinities are no values. Two consequences are kept in
  view. Where a theorem repeats an expression of the source (a difference, a product, a
  quotient of the inputs), it reads the same in floating point; where it adds lengths the
  source has computed, or divides one by another, it is an equality of exact arithmetic,
  with which the floating-point results agree up to rounding. The value of a division by
  zero, NaN or an infinity in the source and \<open>0\<close> in HOL, is modelled apart in
  \<open>calculateDestinationSegments_js\<close>. Array indices, grid rows and grid columns
  are \<open>nat\<close>. Field names that clash with HOL constants carry a prefix:
  \<open>Axis.id\<close> is \<open>axis_id\<close>, \<open>Axis.value\<close> is \<open>axis_value\<close>, \<open>Segment.start\<close> and
  \<open>Segment.length\<close> are \<open>seg_start\<close> and \<open>seg_length\<close>, \<open>DestSegment.start\<close> and
  \<open>DestSegment.length\<close> are \<open>dst_start\<close> and \<open>dst_length\<close>.
\<close>

datatype TileMode = Fixed | Stretch | Repeat | Hidden

record Axis =
  axis_id :: string
  axis_value :: real

record TileConfig =
  mode :: TileMode

type_synonym TileMap = "string \<rightharpoonup> TileConfig"

record NSliceConfig =
  cfg_filename :: "string option"
  cfg_xAxes :: "Axis list option"
  cfg_yAxes :: "Axis list option"
  cfg_tiles :: "TileMap option"
  cfg_rowScaling :: "bool list option"
  cfg_colScaling :: "bool list option"

section \<open>utils/math.ts\<close>

record Segment =
  seg_start :: real
  seg_length :: real
  isFixed :: bool
  index :: nat

record DestSegment =
  dst_start :: real
  dst_length :: real
  srcIndex :: nat

subsection \<open>Tile keys\<close>

text \<open>
  The template literal \<open>`${row}-${col}`\<close> renders both indices in decimal, without leading
  zeros, and joins them with a dash.
\<close>

definition digit_char :: "nat \<Rightarrow> char" where
  "digit_char d =
     (if d = 0 then CHR ''0'' else if d = 1 then CHR ''1'' else if d = 2 then CHR ''2''
      else if d = 3 then CHR ''3'' else if d = 4 then CHR ''4'' else if d = 5 then CHR ''5''
      else if d = 6 then CHR ''6'' else if d = 7 then CHR ''7'' else if d = 8 then CHR ''8''
      else CHR ''9'')"

fun show_nat :: "nat \<Rightarrow> string" where
  "show_nat n = (if n < 10 then [digit_char n] else show_nat (n div 10) @ [digit_char (n mod 10)])"

declare show_nat.simps [simp del]

definition tile_key :: "nat \<Rightarrow> nat \<Rightarrow> string" where
  "tile_key row col = show_nat row @ ''-'' @ show_nat col"

subsection \<open>getEffectiveTileMode\<close>

definition getEffectiveTileMode :: "TileMap \<Rightarrow> nat \<Rightarrow> nat \<Rightarrow> TileMode" where
  "getEffectiveTileMode tiles row col =
     (let key = tile_key row col in
      case tiles key of
        Some t \<Rightarrow> mode t
      | None \<Rightarrow> Stretch)"

subsection \<open>generateDefaultScaling\<close>

definition generateDefaultScaling :: "nat \<Rightarrow> bool list" where
  "generateDefaultScaling numSegments = map (\<lambda>i. i mod 2 \<noteq> 0) [0..<numSegments]"

subsection \<open>calculateSegments\<close>

text \<open>
  \<open>scalingArray[i] ?? false\<close>: a read past the end of the array is \<open>undefined\<close>, which the
  nullish coalescing turns into \<open>false\<close>.
\<close>

definition scaling_at :: "bool list \<Rightarrow> nat \<Rightarrow> bool" where
  "scaling_at scalingArray i = (if i < length scalingArray then scalingArray ! i else False)"

text \<open>
  The body of \<open>boundaries.forEach\<close>: the remaining boundaries, the callback's index \<open>i\<close>,
  the variable \<open>cursor\<close> and the array \<open>segments\<close> built so far by \<open>push\<close>.
\<close>

fun segments_loop :: "bool list \<Rightarrow> real list \<Rightarrow> nat \<Rightarrow> real \<Rightarrow> Segment list \<Rightarrow> Segment list" where
  "segments_loop scalingArray [] i cursor segments = segments"
| "segments_loop scalingArray (boundary # rest) i cursor segments =
     (let isScalable = scaling_at scalingArray i;
          len = boundary - cursor;
          segments' =
            (if len > 0
             then segments @ [\<lparr>seg_start = cursor, seg_length = len,
                               isFixed = \<not> isScalable, index = i\<rparr>]
             else segments)
      in segments_loop scalingArray rest (i + 1) boundary segments')"

text \<open>
  \<open>[...axes].sort((a, b) => a.value - b.value)\<close> is a stable sort by \<open>value\<close>, as
  \<open>sort_key\<close> is.
\<close>

definition calculateSegments :: "Axis list \<Rightarrow> real \<Rightarrow> bool list \<Rightarrow> Segment list" where
  "calculateSegments axes totalSize scalingArray =
     (let sorted = sort_key axis_value axes;
          boundaries = map (\<lambda>a. (axis_value a / 100) * totalSize) sorted @ [totalSize]
      in segments_loop scalingArray boundaries 0 0 [])"

subsection \<open>calculateDestinationSegments\<close>

text \<open>\<open>reduce((acc, s) => acc + s.length, 0)\<close> over the filtered segments.\<close>

definition totalFixed :: "Segment list \<Rightarrow> real" where
  "totalFixed srcSegments =
     foldl (\<lambda>acc s. acc + seg_length s) 0 (filter (\<lambda>s. isFixed s) srcSegments)"

definition totalScaleSourceLength :: "Segment list \<Rightarrow> real" where
  "totalScaleSourceLength srcSegments =
     foldl (\<lambda>acc s. acc + seg_length s) 0 (filter (\<lambda>s. \<not> isFixed s) srcSegments)"

definition availableScaleSpace :: "Segment list \<Rightarrow> real \<Rightarrow> real" where
  "availableScaleSpace srcSegments targetSize = max 0 (targetSize - totalFixed srcSegments)"

text \<open>
  \<open>targetSize < totalFixed ? targetSize / totalFixed : 1\<close>. The divisor is zero only when
  \<open>totalFixed\<close> is zero and the target size is negative; the source's quotient is then an
  infinity, HOL's is \<open>0\<close>. \<open>scaleFixed_js\<close> below keeps that case apart, and
  \<open>calculateDestinationSegments_js\<close> agrees with \<open>calculateDestinationSegments\<close> on every other
  input.
\<close>

definition scaleFixed :: "Segment list \<Rightarrow> real \<Rightarrow> real" where
  "scaleFixed srcSegments targetSize =
     (if targetSize < totalFixed srcSegments then targetSize / totalFixed srcSegments else 1)"

text \<open>The value of \<open>destLength\<close> at the end of one pass through the \<open>forEach\<close> body.\<close>

definition destLength :: "real \<Rightarrow> real \<Rightarrow> real \<Rightarrow> Segment \<Rightarrow> real" where
  "destLength scaleFixedFactor available totalScale seg =
     (if isFixed seg then seg_length seg * scaleFixedFactor
      else if totalScale = 0 then 0
      else (let ratio = seg_length seg / totalScale in ratio * available))"

fun dest_loop :: "real \<Rightarrow> real \<Rightarrow> real \<Rightarrow> Segment list \<Rightarrow> real \<Rightarrow> DestSegment list \<Rightarrow> DestSegment list" where
  "dest_loop scaleFixedFactor available totalScale [] cursor destSegments = destSegments"
| "dest_loop scaleFixedFactor available totalScale (seg # rest) cursor destSegments =
     (let d = destLength scaleFixedFactor available totalScale seg
      in dest_loop scaleFixedFactor available totalScale rest (cursor + d)
           (destSegments @ [\<lparr>dst_start = cursor, dst_length = d, srcIndex = index seg\<rparr>]))"

definition calculateDestinationSegments :: "Segment list \<Rightarrow> real \<Rightarrow> DestSegment list" where
  "calculateDestinationSegments srcSegments targetSize =
     dest_loop (scaleFixed srcSegments targetSize)
       (availableScaleSpace srcSegments targetSize)
       (totalScaleSourceLength srcSegments) srcSegments 0 []"

subsection \<open>calculateDestinationSegments, with the results of divisions by zero kept apart\<close>

text \<open>
  A division of the source never raises: with a zero divisor its value is NaN or an
  infinity, and every product or sum with such an operand is NaN or an infinity again. The
  function applies no comparison to such a value. Below, \<open>None\<close> stands for a number that is
  NaN or an infinity, and \<open>Some x\<close> for the finite number \<open>x\<close>; apart from that the function
  is translated as above. The sums \<open>totalFixed\<close> and \<open>totalScaleSourceLength\<close> and the available
  space involve no division.
\<close>

definition js_divide :: "real \<Rightarrow> real \<Rightarrow> real option" where
  "js_divide x y = (if y = 0 then None else Some (x / y))"








section \<open>App.tsx: editor state and its handlers\<close>

datatype AxisType = X | Y

record AppState =
  filename :: string
  xAxes :: "Axis list"
  yAxes :: "Axis list"
  rowScaling :: "bool list"
  colScaling :: "bool list"
  tiles :: TileMap
  selectedAxis :: "(string \<times> AxisType) option"

text \<open>The initial values of the \<open>useState\<close> hooks.\<close>

definition initialState :: AppState where
  "initialState =
     \<lparr>filename = ''example.jpg'',
      xAxes = [\<lparr>axis_id = ''x1'', axis_value = 33\<rparr>, \<lparr>axis_id = ''x2'', axis_value = 66\<rparr>],
      yAxes = [\<lparr>axis_id = ''y1'', axis_value = 33\<rparr>, \<lparr>axis_id = ''y2'', axis_value = 66\<rparr>],
      rowScaling = [False, True, False],
      colScaling = [False, True, False],
      tiles = Map.empty,
      selectedAxis = None\<rparr>"





text \<open>
  \<open>generateJSON\<close>: the two nested \<open>for\<close> loops fill \<open>explicitTiles\<close> row by row. The
  serialisation to text and back is the identity on the configuration.
\<close>

definition explicit_row :: "TileMap \<Rightarrow> nat \<Rightarrow> nat \<Rightarrow> TileMap \<Rightarrow> TileMap" where
  "explicit_row ts numCols r explicitTiles =
     fold (\<lambda>c m. m(tile_key r c \<mapsto> \<lparr>mode = getEffectiveTileMode ts r c\<rparr>)) [0..<numCols] explicitTiles"

definition explicit_tiles :: "TileMap \<Rightarrow> nat \<Rightarrow> nat \<Rightarrow> TileMap" where
  "explicit_tiles ts numRows numCols =
     fold (explicit_row ts numCols) [0..<numRows] Map.empty"

definition generateJSON :: "AppState \<Rightarrow> NSliceConfig" where
  "generateJSON st =
     (let sortedX = sort_key axis_value (xAxes st);
          sortedY = sort_key axis_value (yAxes st);
          numRows = length sortedY + 1;
          numCols = length sortedX + 1
      in \<lparr>cfg_filename = Some (filename st),
          cfg_xAxes = Some (xAxes st),
          cfg_yAxes = Some (yAxes st),
          cfg_tiles = Some (explicit_tiles (tiles st) numRows numCols),
          cfg_rowScaling = Some (rowScaling st),
          cfg_colScaling = Some (colScaling st)\<rparr>)"

text \<open>
  \<open>handleLoadJson\<close>: a field that is missing from the document is \<open>None\<close>. The empty
  string is falsy, so an empty \<open>filename\<close> leaves the current one in place; an array is
  truthy even when empty.
\<close>

definition or_else :: "'a option \<Rightarrow> 'a \<Rightarrow> 'a" where
  "or_else v d = (case v of Some x \<Rightarrow> x | None \<Rightarrow> d)"

definition handleLoadJson :: "NSliceConfig \<Rightarrow> AppState \<Rightarrow> AppState" where
  "handleLoadJson config st =
     st\<lparr>filename :=
          (case cfg_filename config of
             Some f \<Rightarrow> if f \<noteq> [] then f else filename st
           | None \<Rightarrow> filename st),
        xAxes := or_else (cfg_xAxes config) [],
        yAxes := or_else (cfg_yAxes config) [],
        tiles := or_else (cfg_tiles config) Map.empty,
        rowScaling :=
          (case cfg_rowScaling config of
             Some s \<Rightarrow> s
           | None \<Rightarrow> generateDefaultScaling
                       ((case cfg_yAxes config of Some as \<Rightarrow> length as | None \<Rightarrow> 0) + 1)),
        colScaling :=
          (case cfg_colScaling config of
             Some s \<Rightarrow> s
           | None \<Rightarrow> generateDefaultScaling
                       ((case cfg_xAxes config of Some as \<Rightarrow> length as | None \<Rightarrow> 0) + 1)),
        selectedAxis := None\<rparr>"

section \<open>components/Inspector.tsx\<close>

text \<open>
  \<open>updateAxisValue\<close>; \<open>parsed\<close> is the result of \<open>parseFloat(newVal)\<close>, with \<open>None\<close> for
  NaN. The handler returns the list it passes to \<open>onUpdateX\<close> or \<open>onUpdateY\<close> (the
  setters of \<open>xAxes\<close> and \<open>yAxes\<close>), so the state is returned updated.
\<close>

definition updateAxisValue :: "string \<Rightarrow> AxisType \<Rightarrow> real option \<Rightarrow> AppState \<Rightarrow> AppState" where
  "updateAxisValue i t parsed st =
     (case parsed of
        None \<Rightarrow> st
      | Some val \<Rightarrow>
          (let clamped = min 100 (max 0 val) in
           case t of
             X \<Rightarrow> st\<lparr>xAxes := map (\<lambda>a. if axis_id a = i then a\<lparr>axis_value := clamped\<rparr> else a) (xAxes st)\<rparr>
           | Y \<Rightarrow> st\<lparr>yAxes := map (\<lambda>a. if axis_id a = i then a\<lparr>axis_value := clamped\<rparr> else a) (yAxes st)\<rparr>))"

section \<open>Specification predicates\<close>

text \<open>
  The segments tile the interval from \<open>c\<close> to \<open>e\<close>: each starts where the one before ends,
  and each has positive length.
\<close>

fun tiling :: "real \<Rightarrow> Segment list \<Rightarrow> real \<Rightarrow> bool" where
  "tiling c [] e = (c = e)"
| "tiling c (s # ss) e = (seg_start s = c \<and> 0 < seg_length s \<and> tiling (c + seg_length s) ss e)"






section \<open>Properties\<close>

subsection \<open>Tile mode resolver\<close>

text \<open>
  C8: for every tile map and every row and column, \<open>getEffectiveTileMode\<close> returns the
  stored mode when the key of the cell is present in the map, and \<open>Stretch\<close> (which is not
  \<open>Fixed\<close>) when the key is absent.
\<close>

theorem getEffectiveTileMode_present_absent:
  "(tm (tile_key row col) = Some t \<longrightarrow> getEffectiveTileMode tm row col = mode t)
   \<and> (tile_key row col \<notin> dom tm \<longrightarrow>
        getEffectiveTileMode tm row col = Stretch \<and> getEffectiveTileMode tm row col \<noteq> Fixed)"
  by (auto simp: getEffectiveTileMode_def split: option.splits)

lemma tile_key_2_3: "tile_key 2 3 = ''2-3''"
  by (simp add: tile_key_def show_nat.simps digit_char_def)

theorem getEffectiveTileMode_present_absent_witness:
  "[''2-3'' \<mapsto> \<lparr>mode = Repeat\<rparr>] (tile_key 2 3) = Some \<lparr>mode = Repeat\<rparr>
   \<and> getEffectiveTileMode [''2-3'' \<mapsto> \<lparr>mode = Repeat\<rparr>] 2 3 = Repeat
   \<and> tile_key 2 3 \<notin> dom (Map.empty :: TileMap)
   \<and> getEffectiveTileMode Map.empty 2 3 = Stretch"
  using getEffectiveTileMode_present_absent [of "[''2-3'' \<mapsto> \<lparr>mode = Repeat\<rparr>]" 2 3 "\<lparr>mode = Repeat\<rparr>"]
        getEffectiveTileMode_present_absent [of Map.empty 2 3]
  by (simp add: tile_key_2_3)

subsection \<open>Default scaling on load\<close>

lemma generateDefaultScaling_3: "generateDefaultScaling 3 = [False, True, False]"
  by (simp add: generateDefaultScaling_def upt_rec)

text \<open>
  C9: a document without \<open>rowScaling\<close> (or without \<open>colScaling\<close>) is loaded with
  \<open>generateDefaultScaling\<close> of the number of y-axes (x-axes) of the document plus one, a
  missing axis list counting as empty; the loaded axis lists are those of the document.
  \<open>generateDefaultScaling n\<close> has length \<open>n\<close> and holds \<open>i mod 2 \<noteq> 0\<close> at index \<open>i\<close>, so it
  is \<open>[False, True, False]\<close> for 3 and \<open>[False]\<close> for 1. The handler has no failing branch.
\<close>

theorem load_regenerates_default_scaling:
  "(cfg_rowScaling config = None \<longrightarrow>
      rowScaling (handleLoadJson config st)
        = generateDefaultScaling (length (or_else (cfg_yAxes config) []) + 1))
   \<and> (cfg_colScaling config = None \<longrightarrow>
      colScaling (handleLoadJson config st)
        = generateDefaultScaling (length (or_else (cfg_xAxes config) []) + 1))
   \<and> yAxes (handleLoadJson config st) = or_else (cfg_yAxes config) []
   \<and> xAxes (handleLoadJson config st) = or_else (cfg_xAxes config) []
   \<and> length (generateDefaultScaling n) = n
   \<and> (\<forall>i < n. generateDefaultScaling n ! i = (i mod 2 \<noteq> 0))
   \<and> generateDefaultScaling 3 = [False, True, False]
   \<and> generateDefaultScaling 1 = [False]"
proof (intro conjI impI allI)
  assume "cfg_rowScaling config = None"
  then show "rowScaling (handleLoadJson config st)
        = generateDefaultScaling (length (or_else (cfg_yAxes config) []) + 1)"
    by (simp add: handleLoadJson_def or_else_def split: option.splits)
next
  assume "cfg_colScaling config = None"
  then show "colScaling (handleLoadJson config st)
        = generateDefaultScaling (length (or_else (cfg_xAxes config) []) + 1)"
    by (simp add: handleLoadJson_def or_else_def split: option.splits)
next
  show "yAxes (handleLoadJson config st) = or_else (cfg_yAxes config) []"
    by (simp add: handleLoadJson_def)
next
  show "xAxes (handleLoadJson config st) = or_else (cfg_xAxes config) []"
    by (simp add: handleLoadJson_def)
next
  show "length (generateDefaultScaling n) = n"
    by (simp add: generateDefaultScaling_def)
next
  fix i assume "i < n"
  then show "generateDefaultScaling n ! i = (i mod 2 \<noteq> 0)"
    by (simp add: generateDefaultScaling_def)
next
  show "generateDefaultScaling 3 = [False, True, False]"
    by (simp add: generateDefaultScaling_def upt_rec)
next
  show "generateDefaultScaling 1 = [False]"
    by (simp add: generateDefaultScaling_def)
qed

theorem load_regenerates_default_scaling_witness:
  "cfg_rowScaling \<lparr>cfg_filename = None,
        cfg_xAxes = Some [\<lparr>axis_id = ''a'', axis_value = 25\<rparr>, \<lparr>axis_id = ''b'', axis_value = 50\<rparr>,
                          \<lparr>axis_id = ''c'', axis_value = 75\<rparr>],
        cfg_yAxes = None, cfg_tiles = None, cfg_rowScaling = None, cfg_colScaling = None\<rparr> = None
   \<and> cfg_colScaling \<lparr>cfg_filename = None,
        cfg_xAxes = Some [\<lparr>axis_id = ''a'', axis_value = 25\<rparr>, \<lparr>axis_id = ''b'', axis_value = 50\<rparr>,
                          \<lparr>axis_id = ''c'', axis_value = 75\<rparr>],
        cfg_yAxes = None, cfg_tiles = None, cfg_rowScaling = None, cfg_colScaling = None\<rparr> = None
   \<and> rowScaling (handleLoadJson \<lparr>cfg_filename = None,
        cfg_xAxes = Some [\<lparr>axis_id = ''a'', axis_value = 25\<rparr>, \<lparr>axis_id = ''b'', axis_value = 50\<rparr>,
                          \<lparr>axis_id = ''c'', axis_value = 75\<rparr>],
        cfg_yAxes = None, cfg_tiles = None, cfg_rowScaling = None, cfg_colScaling = None\<rparr>
        initialState) = [False]
   \<and> colScaling (handleLoadJson \<lparr>cfg_filename = None,
        cfg_xAxes = Some [\<lparr>axis_id = ''a'', axis_value = 25\<rparr>, \<lparr>axis_id = ''b'', axis_value = 50\<rparr>,
                          \<lparr>axis_id = ''c'', axis_value = 75\<rparr>],
        cfg_yAxes = None, cfg_tiles = None, cfg_rowScaling = None, cfg_colScaling = None\<rparr>
        initialState) = [False, True, False, True]"
  (is "cfg_rowScaling ?cfg = None \<and> _")
proof -
  have none: "cfg_rowScaling ?cfg = None" "cfg_colScaling ?cfg = None"
    by simp_all
  have len: "length (or_else (cfg_yAxes ?cfg) []) + 1 = 1"
    "length (or_else (cfg_xAxes ?cfg) []) + 1 = 4"
    by (simp_all add: or_else_def)
  have four: "generateDefaultScaling 4 = [False, True, False, True]"
    by (simp add: generateDefaultScaling_def upt_rec)
  note inst = load_regenerates_default_scaling [of ?cfg initialState 3]
  from inst none have "rowScaling (handleLoadJson ?cfg initialState)
      = generateDefaultScaling (length (or_else (cfg_yAxes ?cfg) []) + 1)"
    by (elim conjE) (simp only: simp_thms)
  with inst have row: "rowScaling (handleLoadJson ?cfg initialState) = [False]"
    unfolding len by (elim conjE) (simp only:)
  from inst none have "colScaling (handleLoadJson ?cfg initialState)
      = generateDefaultScaling (length (or_else (cfg_xAxes ?cfg) []) + 1)"
    by (elim conjE) (simp only: simp_thms)
  then have col: "colScaling (handleLoadJson ?cfg initialState) = [False, True, False, True]"
    unfolding len four .
  from none row col show ?thesis by (intro conjI)
qed

subsection \<open>Destination layout\<close>

lemma foldl_add_lengths:
  "foldl (\<lambda>acc s. acc + seg_length s) a xs = a + sum_list (map seg_length xs)"
  by (induction xs arbitrary: a) simp_all

lemma totalFixed_sum:
  "totalFixed segs = sum_list (map seg_length (filter (\<lambda>s. isFixed s) segs))"
  by (simp add: totalFixed_def foldl_add_lengths)

lemma totalScaleSourceLength_sum:
  "totalScaleSourceLength segs = sum_list (map seg_length (filter (\<lambda>s. \<not> isFixed s) segs))"
  by (simp add: totalScaleSourceLength_def foldl_add_lengths)

lemma dest_loop_lengths:
  "map dst_length (dest_loop f a t segs c acc) = map dst_length acc @ map (destLength f a t) segs"
  by (induction segs arbitrary: c acc) (simp_all add: Let_def)

lemma dest_loop_srcIndex:
  "map srcIndex (dest_loop f a t segs c acc) = map srcIndex acc @ map index segs"
  by (induction segs arbitrary: c acc) (simp_all add: Let_def)

lemma dest_lengths:
  "map dst_length (calculateDestinationSegments segs S)
     = map (destLength (scaleFixed segs S) (availableScaleSpace segs S) (totalScaleSourceLength segs)) segs"
  by (simp add: calculateDestinationSegments_def dest_loop_lengths)

lemma dest_count: "length (calculateDestinationSegments segs S) = length segs"
  using arg_cong [OF dest_lengths, of length segs S] by simp

lemma dest_length_nth:
  assumes "i < length segs"
  shows "dst_length (calculateDestinationSegments segs S ! i)
     = destLength (scaleFixed segs S) (availableScaleSpace segs S) (totalScaleSourceLength segs) (segs ! i)"
proof -
  have "dst_length (calculateDestinationSegments segs S ! i)
      = map dst_length (calculateDestinationSegments segs S) ! i"
    using assms by (simp add: dest_count)
  also have "\<dots> = destLength (scaleFixed segs S) (availableScaleSpace segs S)
      (totalScaleSourceLength segs) (segs ! i)"
    using assms by (simp add: dest_lengths)
  finally show ?thesis .
qed

lemma sum_destLength:
  "sum_list (map (destLength f a t) segs)
     = f * sum_list (map seg_length (filter (\<lambda>s. isFixed s) segs))
       + (if t = 0 then 0 else (a / t) * sum_list (map seg_length (filter (\<lambda>s. \<not> isFixed s) segs)))"
  by (induction segs) (simp_all add: destLength_def algebra_simps add_divide_distrib)

lemma dest_total:
  "sum_list (map dst_length (calculateDestinationSegments segs S))
     = scaleFixed segs S * totalFixed segs
       + (if totalScaleSourceLength segs = 0 then 0 else availableScaleSpace segs S)"
  by (simp add: dest_lengths sum_destLength totalFixed_sum [symmetric]
        totalScaleSourceLength_sum [symmetric])

text \<open>
  C1, as amended: when the target size is at least \<open>totalFixed\<close>, every fixed segment keeps its
  source length exactly (the factor is 1), and every scalable segment gets
  \<open>length / totalScaleSourceLength * (targetSize - totalFixed)\<close>, or 0 when
  \<open>totalScaleSourceLength\<close> is zero. Within floating-point tolerance, the destination lengths
  sum to the target size when the scalable segments have a non-zero total source length or
  the target size equals \<open>totalFixed\<close>, and to \<open>totalFixed\<close> when the scalable segments have
  total source length zero. The two sums are equalities of exact arithmetic; the lengths of
  the single segments are the source's own expressions.
\<close>

theorem dest_fixed_kept_and_total:
  assumes "totalFixed segs \<le> S"
  shows "(\<forall>i < length segs. isFixed (segs ! i) \<longrightarrow>
            dst_length (calculateDestinationSegments segs S ! i) = seg_length (segs ! i))
         \<and> (\<forall>i < length segs. \<not> isFixed (segs ! i) \<longrightarrow>
            dst_length (calculateDestinationSegments segs S ! i)
              = (if totalScaleSourceLength segs = 0 then 0
                 else seg_length (segs ! i) / totalScaleSourceLength segs * (S - totalFixed segs)))
         \<and> (totalScaleSourceLength segs \<noteq> 0 \<or> S = totalFixed segs \<longrightarrow>
            sum_list (map dst_length (calculateDestinationSegments segs S)) = S)
         \<and> (totalScaleSourceLength segs = 0 \<longrightarrow>
            sum_list (map dst_length (calculateDestinationSegments segs S)) = totalFixed segs)"
proof -
  from assms have sf: "scaleFixed segs S = 1"
    by (simp add: scaleFixed_def)
  from assms have av: "availableScaleSpace segs S = S - totalFixed segs"
    by (simp add: availableScaleSpace_def)
  have fixed: "\<forall>i < length segs. isFixed (segs ! i) \<longrightarrow>
      dst_length (calculateDestinationSegments segs S ! i) = seg_length (segs ! i)"
    by (simp add: dest_length_nth sf destLength_def)
  have scal: "\<forall>i < length segs. \<not> isFixed (segs ! i) \<longrightarrow>
      dst_length (calculateDestinationSegments segs S ! i)
        = (if totalScaleSourceLength segs = 0 then 0
           else seg_length (segs ! i) / totalScaleSourceLength segs * (S - totalFixed segs))"
    by (simp add: dest_length_nth av destLength_def)
  have total: "totalScaleSourceLength segs \<noteq> 0 \<or> S = totalFixed segs \<longrightarrow>
      sum_list (map dst_length (calculateDestinationSegments segs S)) = S"
    by (auto simp: dest_total sf av)
  have zero: "totalScaleSourceLength segs = 0 \<longrightarrow>
      sum_list (map dst_length (calculateDestinationSegments segs S)) = totalFixed segs"
    by (simp add: dest_total sf)
  from fixed scal total zero show ?thesis by (intro conjI)
qed


lemmas dest_eval =
  calculateDestinationSegments_def totalFixed_def totalScaleSourceLength_def
  availableScaleSpace_def scaleFixed_def destLength_def Let_def

theorem dest_fixed_kept_and_total_witness:
  "totalFixed [\<lparr>seg_start = 0, seg_length = 100, isFixed = True, index = 0\<rparr>,
               \<lparr>seg_start = 100, seg_length = 200, isFixed = False, index = 1\<rparr>,
               \<lparr>seg_start = 300, seg_length = 100, isFixed = True, index = 2\<rparr>] \<le> 300
   \<and> map dst_length (calculateDestinationSegments
              [\<lparr>seg_start = 0, seg_length = 100, isFixed = True, index = 0\<rparr>,
               \<lparr>seg_start = 100, seg_length = 200, isFixed = False, index = 1\<rparr>,
               \<lparr>seg_start = 300, seg_length = 100, isFixed = True, index = 2\<rparr>] 300)
       = [100, 100, 100]
   \<and> sum_list (map dst_length (calculateDestinationSegments
              [\<lparr>seg_start = 0, seg_length = 100, isFixed = True, index = 0\<rparr>,
               \<lparr>seg_start = 100, seg_length = 200, isFixed = False, index = 1\<rparr>,
               \<lparr>seg_start = 300, seg_length = 100, isFixed = True, index = 2\<rparr>] 300)) = 300"
  (is "totalFixed ?segs \<le> 300 \<and> _")
proof -
  have le: "totalFixed ?segs \<le> 300"
    by (simp add: totalFixed_def)
  have ne: "totalScaleSourceLength ?segs \<noteq> 0"
    by (simp add: totalScaleSourceLength_def)
  have lens: "map dst_length (calculateDestinationSegments ?segs 300) = [100, 100, 100]"
    by (simp add: dest_eval)
  from dest_fixed_kept_and_total [OF le] ne
  have "sum_list (map dst_length (calculateDestinationSegments ?segs 300)) = 300"
    by blast
  with le lens show ?thesis by blast
qed

theorem dest_total_counterexample:
  "totalFixed [\<lparr>seg_start = 0, seg_length = 100, isFixed = True, index = 0\<rparr>] \<le> 200
   \<and> sum_list (map dst_length (calculateDestinationSegments
         [\<lparr>seg_start = 0, seg_length = 100, isFixed = True, index = 0\<rparr>] 200)) = 100
   \<and> sum_list (map dst_length (calculateDestinationSegments
         [\<lparr>seg_start = 0, seg_length = 100, isFixed = True, index = 0\<rparr>] 200)) \<noteq> 200"
  by (simp add: dest_eval)

text \<open>
  C4: when no segment is scalable and the target size is below \<open>totalFixed\<close>, every segment's
  destination length is its source length times \<open>targetSize / totalFixed\<close>.
\<close>

theorem dest_uniform_shrink:
  assumes "\<forall>s \<in> set segs. isFixed s" and "S < totalFixed segs"
  shows "\<forall>i < length segs.
           dst_length (calculateDestinationSegments segs S ! i)
             = seg_length (segs ! i) * (S / totalFixed segs)"
proof (intro allI impI)
  fix i assume i: "i < length segs"
  with assms(1) have "isFixed (segs ! i)" by simp
  with i assms(2) show "dst_length (calculateDestinationSegments segs S ! i)
      = seg_length (segs ! i) * (S / totalFixed segs)"
    by (simp add: dest_length_nth destLength_def scaleFixed_def)
qed

theorem dest_uniform_shrink_witness:
  "list_all isFixed [\<lparr>seg_start = 0, seg_length = 100, isFixed = True, index = 0\<rparr>,
               \<lparr>seg_start = 100, seg_length = 300, isFixed = True, index = 1\<rparr>]
   \<and> 200 < totalFixed [\<lparr>seg_start = 0, seg_length = 100, isFixed = True, index = 0\<rparr>,
               \<lparr>seg_start = 100, seg_length = 300, isFixed = True, index = 1\<rparr>]
   \<and> dst_length (calculateDestinationSegments
              [\<lparr>seg_start = 0, seg_length = 100, isFixed = True, index = 0\<rparr>,
               \<lparr>seg_start = 100, seg_length = 300, isFixed = True, index = 1\<rparr>] 200 ! 1)
       = 300 * (200 / 400)"
  (is "list_all isFixed ?segs \<and> _")
proof -
  have fixed: "\<forall>s \<in> set ?segs. isFixed s" by simp
  have fixed_all: "list_all isFixed ?segs" by simp
  have tf: "totalFixed ?segs = 400" by (simp add: totalFixed_def)
  have lt: "200 < totalFixed ?segs" by (simp add: totalFixed_def)
  have "1 < length ?segs" by simp
  with dest_uniform_shrink [OF fixed lt]
  have "dst_length (calculateDestinationSegments ?segs 200 ! 1)
      = seg_length (?segs ! 1) * (200 / totalFixed ?segs)"
    by blast
  then have "dst_length (calculateDestinationSegments ?segs 200 ! 1) = 300 * (200 / 400)"
    unfolding tf by simp
  with fixed_all lt show ?thesis by blast
qed

text \<open>
  C5, as amended: when every segment is scalable, the target size is positive and the total
  source length is non-zero, every destination length is
  \<open>length / totalScaleSourceLength * targetSize\<close> (the source's own expression: the available
  space is the whole target size), so the destination lengths are the source lengths times
  one common factor. In exact arithmetic the destination lengths of two segments with
  non-zero source length are therefore in the ratio of their source lengths; the quotients
  computed in floating point agree up to rounding.
\<close>

theorem dest_proportional:
  assumes "\<forall>s \<in> set segs. \<not> isFixed s" and "0 < S" and "totalScaleSourceLength segs \<noteq> 0"
  shows "(\<forall>i < length segs.
            dst_length (calculateDestinationSegments segs S ! i)
              = seg_length (segs ! i) / totalScaleSourceLength segs * S)
         \<and> (\<forall>i < length segs. \<forall>j < length segs.
              seg_length (segs ! i) \<noteq> 0 \<and> seg_length (segs ! j) \<noteq> 0 \<longrightarrow>
              dst_length (calculateDestinationSegments segs S ! i)
                / dst_length (calculateDestinationSegments segs S ! j)
              = seg_length (segs ! i) / seg_length (segs ! j))"
proof -
  from assms(1) have "filter (\<lambda>s. isFixed s) segs = []"
    by (simp add: filter_empty_conv)
  then have "totalFixed segs = 0"
    by (simp add: totalFixed_def)
  with assms(2) have av: "availableScaleSpace segs S = S"
    by (simp add: availableScaleSpace_def)
  have each: "\<forall>i < length segs.
      dst_length (calculateDestinationSegments segs S ! i)
        = seg_length (segs ! i) / totalScaleSourceLength segs * S"
    using assms(1,3) by (simp add: dest_length_nth destLength_def av)
  have ratio: "\<forall>i < length segs. \<forall>j < length segs.
      seg_length (segs ! i) \<noteq> 0 \<and> seg_length (segs ! j) \<noteq> 0 \<longrightarrow>
      dst_length (calculateDestinationSegments segs S ! i)
        / dst_length (calculateDestinationSegments segs S ! j)
      = seg_length (segs ! i) / seg_length (segs ! j)"
  proof (intro allI impI, elim conjE)
    fix i j
    assume i: "i < length segs" and j: "j < length segs"
      and "seg_length (segs ! i) \<noteq> 0" and nz: "seg_length (segs ! j) \<noteq> 0"
    from each i have di: "dst_length (calculateDestinationSegments segs S ! i)
        = seg_length (segs ! i) / totalScaleSourceLength segs * S"
      by simp
    from each j have dj: "dst_length (calculateDestinationSegments segs S ! j)
        = seg_length (segs ! j) / totalScaleSourceLength segs * S"
      by simp
    from assms(2,3) nz show "dst_length (calculateDestinationSegments segs S ! i)
        / dst_length (calculateDestinationSegments segs S ! j)
      = seg_length (segs ! i) / seg_length (segs ! j)"
      unfolding di dj by (simp add: field_simps)
  qed
  from each ratio show ?thesis by (intro conjI)
qed

theorem dest_proportional_witness:
  "list_all (\<lambda>s. \<not> isFixed s)
              [\<lparr>seg_start = 0, seg_length = 100, isFixed = False, index = 0\<rparr>,
               \<lparr>seg_start = 100, seg_length = 300, isFixed = False, index = 1\<rparr>]
   \<and> (0::real) < 200
   \<and> totalScaleSourceLength [\<lparr>seg_start = 0, seg_length = 100, isFixed = False, index = 0\<rparr>,
               \<lparr>seg_start = 100, seg_length = 300, isFixed = False, index = 1\<rparr>] \<noteq> 0
   \<and> map dst_length (calculateDestinationSegments
              [\<lparr>seg_start = 0, seg_length = 100, isFixed = False, index = 0\<rparr>,
               \<lparr>seg_start = 100, seg_length = 300, isFixed = False, index = 1\<rparr>] 200) = [50, 150]
   \<and> dst_length (calculateDestinationSegments
              [\<lparr>seg_start = 0, seg_length = 100, isFixed = False, index = 0\<rparr>,
               \<lparr>seg_start = 100, seg_length = 300, isFixed = False, index = 1\<rparr>] 200 ! 0)
     / dst_length (calculateDestinationSegments
              [\<lparr>seg_start = 0, seg_length = 100, isFixed = False, index = 0\<rparr>,
               \<lparr>seg_start = 100, seg_length = 300, isFixed = False, index = 1\<rparr>] 200 ! 1)
     = 100 / 300"
  (is "list_all _ ?segs \<and> _")
proof -
  have sc: "\<forall>s \<in> set ?segs. \<not> isFixed s" by simp
  have sc_all: "list_all (\<lambda>s. \<not> isFixed s) ?segs" by simp
  have pos: "(0::real) < 200" by simp
  have ne: "totalScaleSourceLength ?segs \<noteq> 0" by (simp add: totalScaleSourceLength_def)
  have ev: "map dst_length (calculateDestinationSegments ?segs 200) = [50, 150]"
    by (simp add: dest_eval)
  note inst = dest_proportional [OF sc pos ne]
  have ij: "0 < length ?segs" "1 < length ?segs"
    "seg_length (?segs ! 0) \<noteq> 0 \<and> seg_length (?segs ! 1) \<noteq> 0"
    by simp_all
  from inst ij have "dst_length (calculateDestinationSegments ?segs 200 ! 0)
          / dst_length (calculateDestinationSegments ?segs 200 ! 1)
        = seg_length (?segs ! 0) / seg_length (?segs ! 1)"
    by blast
  then have "dst_length (calculateDestinationSegments ?segs 200 ! 0)
          / dst_length (calculateDestinationSegments ?segs 200 ! 1) = 100 / 300"
    by simp
  with sc_all pos ne ev show ?thesis by (intro conjI)
qed

theorem dest_proportional_counterexample:
  "list_all (\<lambda>s. \<not> isFixed s)
              [\<lparr>seg_start = 0, seg_length = 100, isFixed = False, index = 0\<rparr>,
               \<lparr>seg_start = 100, seg_length = 300, isFixed = False, index = 1\<rparr>]
   \<and> map dst_length (calculateDestinationSegments
              [\<lparr>seg_start = 0, seg_length = 100, isFixed = False, index = 0\<rparr>,
               \<lparr>seg_start = 100, seg_length = 300, isFixed = False, index = 1\<rparr>] 0) = [0, 0]
   \<and> dst_length (calculateDestinationSegments
              [\<lparr>seg_start = 0, seg_length = 100, isFixed = False, index = 0\<rparr>,
               \<lparr>seg_start = 100, seg_length = 300, isFixed = False, index = 1\<rparr>] 0 ! 0)
     / dst_length (calculateDestinationSegments
              [\<lparr>seg_start = 0, seg_length = 100, isFixed = False, index = 0\<rparr>,
               \<lparr>seg_start = 100, seg_length = 300, isFixed = False, index = 1\<rparr>] 0 ! 1)
     \<noteq> seg_length \<lparr>seg_start = 0, seg_length = 100, isFixed = False, index = 0\<rparr>
       / seg_length \<lparr>seg_start = 100, seg_length = 300, isFixed = False, index = 1\<rparr>"
  by (simp add: dest_eval)

subsection \<open>Segment partitioner\<close>

lemma segments_loop_acc:
  "segments_loop sc bs i c acc = acc @ segments_loop sc bs i c []"
proof (induction bs arbitrary: i c acc)
  case Nil
  show ?case by simp
next
  case (Cons b bs)
  show ?case
  proof (cases "b - c > 0")
    case True
    then show ?thesis
      using Cons.IH [of "Suc i" b "acc @ [\<lparr>seg_start = c, seg_length = b - c,
            isFixed = \<not> scaling_at sc i, index = i\<rparr>]"]
            Cons.IH [of "Suc i" b "[\<lparr>seg_start = c, seg_length = b - c,
            isFixed = \<not> scaling_at sc i, index = i\<rparr>]"]
      by (simp add: Let_def)
  next
    case False
    then show ?thesis
      using Cons.IH [of "Suc i" b acc] by (simp add: Let_def)
  qed
qed

lemma segments_loop_Cons:
  "segments_loop sc (b # bs) i c [] =
     (if b - c > 0
      then \<lparr>seg_start = c, seg_length = b - c, isFixed = \<not> scaling_at sc i, index = i\<rparr>
             # segments_loop sc bs (Suc i) b []
      else segments_loop sc bs (Suc i) b [])"
  using segments_loop_acc [of sc bs "Suc i" b "[\<lparr>seg_start = c, seg_length = b - c,
            isFixed = \<not> scaling_at sc i, index = i\<rparr>]"]
  by (simp add: Let_def)

lemma segments_loop_tiling:
  assumes "sorted (c # bs)"
  shows "tiling c (segments_loop sc bs i c []) (last (c # bs))"
  using assms
proof (induction bs arbitrary: i c)
  case Nil
  show ?case by simp
next
  case (Cons b bs)
  from Cons.prems have cb: "c \<le> b" and sb: "sorted (b # bs)"
    by simp_all
  from Cons.IH [OF sb] have ih: "tiling b (segments_loop sc bs (Suc i) b []) (last (b # bs))" .
  show ?case
  proof (cases "b - c > 0")
    case True
    with ih show ?thesis
      by (simp add: segments_loop_Cons del: segments_loop.simps)
  next
    case False
    with cb have "b = c" by simp
    with ih show ?thesis
      by (simp add: segments_loop_Cons del: segments_loop.simps)
  qed
qed

lemma tiling_sum: "tiling c segs e \<Longrightarrow> sum_list (map seg_length segs) = e - c"
  by (induction segs arbitrary: c) auto

lemma tiling_positive: "tiling c segs e \<Longrightarrow> \<forall>s \<in> set segs. 0 < seg_length s"
  by (induction segs arbitrary: c) auto

lemma tiling_start_ge: "tiling c segs e \<Longrightarrow> \<forall>s \<in> set segs. c \<le> seg_start s"
proof (induction segs arbitrary: c)
  case Nil
  show ?case by simp
next
  case (Cons s ss)
  from Cons.prems have "tiling (c + seg_length s) ss e" and "0 < seg_length s" and "seg_start s = c"
    by simp_all
  with Cons.IH [of "c + seg_length s"] show ?case
    by fastforce
qed

lemma tiling_contiguous:
  "tiling c segs e \<Longrightarrow> Suc i < length segs \<Longrightarrow>
     seg_start (segs ! i) + seg_length (segs ! i) = seg_start (segs ! Suc i)"
proof (induction segs arbitrary: c i)
  case Nil
  then show ?case by simp
next
  case (Cons s ss)
  show ?case
  proof (cases i)
    case 0
    with Cons.prems show ?thesis
      by (cases ss) auto
  next
    case (Suc k)
    with Cons.prems Cons.IH [of "c + seg_length s" k] show ?thesis
      by simp
  qed
qed

lemma tiling_ascending: "tiling c segs e \<Longrightarrow> sorted_wrt (<) (map seg_start segs)"
proof (induction segs arbitrary: c)
  case Nil
  show ?case by simp
next
  case (Cons s ss)
  from Cons.prems have t: "tiling (c + seg_length s) ss e" and p: "0 < seg_length s"
    and st: "seg_start s = c"
    by simp_all
  from tiling_start_ge [OF t] p st have "\<forall>x \<in> set ss. seg_start s < seg_start x"
    by fastforce
  with Cons.IH [OF t] show ?case by simp
qed

lemma boundaries_sorted:
  assumes "0 < T" and "\<forall>a \<in> set axes. 0 \<le> axis_value a \<and> axis_value a \<le> 100"
  shows "sorted (0 # map (\<lambda>a. (axis_value a / 100) * T) (sort_key axis_value axes) @ [T])"
proof -
  let ?srt = "sort_key axis_value axes"
  let ?f = "\<lambda>v. (v / 100) * T"
  have mono: "\<And>u v. u \<le> v \<Longrightarrow> ?f u \<le> ?f v"
    using assms(1) by (simp add: divide_right_mono mult_right_mono)
  have "sorted (map axis_value ?srt)" by simp
  then have "sorted_wrt (\<lambda>x y. axis_value x \<le> axis_value y) ?srt"
    by (simp add: sorted_wrt_map)
  then have "sorted_wrt (\<lambda>x y. ?f (axis_value x) \<le> ?f (axis_value y)) ?srt"
    by (rule sorted_wrt_mono_rel [rotated]) (rule mono)
  then have s1: "sorted (map (\<lambda>a. ?f (axis_value a)) ?srt)"
    by (simp add: sorted_wrt_map)
  have rng: "\<forall>a \<in> set ?srt. 0 \<le> ?f (axis_value a) \<and> ?f (axis_value a) \<le> T"
  proof
    fix a assume "a \<in> set ?srt"
    with assms(2) have v: "0 \<le> axis_value a" "axis_value a \<le> 100" by simp_all
    from v(1) assms(1) have "0 \<le> ?f (axis_value a)" by simp
    moreover from mono [OF v(2)] have "?f (axis_value a) \<le> T" by simp
    ultimately show "0 \<le> ?f (axis_value a) \<and> ?f (axis_value a) \<le> T" ..
  qed
  from s1 rng assms(1) show ?thesis
    by (auto simp: sorted_append)
qed


lemma calculateSegments_tiling:
  assumes "0 < T" and "\<forall>a \<in> set axes. 0 \<le> axis_value a \<and> axis_value a \<le> 100"
  shows "tiling 0 (calculateSegments axes T sc) T"
  using segments_loop_tiling [OF boundaries_sorted [OF assms], of sc 0]
  by (simp add: calculateSegments_def)

lemmas segments_eval = calculateSegments_def scaling_at_def Let_def

lemma tiling_nonempty: "tiling c segs e \<Longrightarrow> c \<noteq> e \<Longrightarrow> segs \<noteq> []"
  by (cases segs) simp_all

lemma tiling_first: "tiling c segs e \<Longrightarrow> segs \<noteq> [] \<Longrightarrow> seg_start (hd segs) = c"
  by (cases segs) simp_all

lemma tiling_last:
  "tiling c segs e \<Longrightarrow> segs \<noteq> [] \<Longrightarrow> seg_start (last segs) + seg_length (last segs) = e"
proof (induction segs arbitrary: c)
  case Nil
  then show ?case by simp
next
  case (Cons s ss)
  show ?case
  proof (cases "ss = []")
    case True
    with Cons.prems show ?thesis by simp
  next
    case False
    with Cons.prems Cons.IH [of "c + seg_length s"] show ?thesis by simp
  qed
qed

text \<open>
  C2, as amended: for every axis list whose values lie in \<open>[0, 100]\<close> and every total size
  \<open>T > 0\<close>, \<open>calculateSegments\<close> returns at least one segment; the segments are ascending in
  start and none has length zero; the first starts at 0, the length of each is the start
  of the next minus its own start, and the length of the last is \<open>T\<close> minus its start
  (the source's own differences \<open>boundary - cursor\<close>). In exact arithmetic each segment
  therefore ends where the next one starts and the lengths sum to \<open>T\<close>; in floating point
  these two equalities hold up to rounding.
\<close>

theorem segments_partition:
  assumes "0 < T" and "\<forall>a \<in> set axes. 0 \<le> axis_value a \<and> axis_value a \<le> 100"
  shows "calculateSegments axes T sc \<noteq> []
         \<and> sorted_wrt (<) (map seg_start (calculateSegments axes T sc))
         \<and> (\<forall>s \<in> set (calculateSegments axes T sc). 0 < seg_length s)
         \<and> seg_start (hd (calculateSegments axes T sc)) = 0
         \<and> (\<forall>i. Suc i < length (calculateSegments axes T sc) \<longrightarrow>
               seg_length (calculateSegments axes T sc ! i)
                 = seg_start (calculateSegments axes T sc ! Suc i)
                     - seg_start (calculateSegments axes T sc ! i))
         \<and> seg_length (last (calculateSegments axes T sc))
              = T - seg_start (last (calculateSegments axes T sc))
         \<and> (\<forall>i. Suc i < length (calculateSegments axes T sc) \<longrightarrow>
               seg_start (calculateSegments axes T sc ! i) + seg_length (calculateSegments axes T sc ! i)
                 = seg_start (calculateSegments axes T sc ! Suc i))
         \<and> sum_list (map seg_length (calculateSegments axes T sc)) = T"
proof -
  note t = calculateSegments_tiling [OF assms, of sc]
  from assms(1) have ne0: "(0::real) \<noteq> T" by simp
  have ne: "calculateSegments axes T sc \<noteq> []"
    using t ne0 by (rule tiling_nonempty)
  have asc: "sorted_wrt (<) (map seg_start (calculateSegments axes T sc))"
    by (rule tiling_ascending [OF t])
  have pos: "\<forall>s \<in> set (calculateSegments axes T sc). 0 < seg_length s"
    by (rule tiling_positive [OF t])
  have first: "seg_start (hd (calculateSegments axes T sc)) = 0"
    using t ne by (rule tiling_first)
  have cont: "\<forall>i. Suc i < length (calculateSegments axes T sc) \<longrightarrow>
      seg_start (calculateSegments axes T sc ! i) + seg_length (calculateSegments axes T sc ! i)
        = seg_start (calculateSegments axes T sc ! Suc i)"
    using tiling_contiguous [OF t] by blast
  have diff: "\<forall>i. Suc i < length (calculateSegments axes T sc) \<longrightarrow>
      seg_length (calculateSegments axes T sc ! i)
        = seg_start (calculateSegments axes T sc ! Suc i) - seg_start (calculateSegments axes T sc ! i)"
  proof (intro allI impI)
    fix i assume "Suc i < length (calculateSegments axes T sc)"
    with cont have "seg_start (calculateSegments axes T sc ! i)
        + seg_length (calculateSegments axes T sc ! i)
        = seg_start (calculateSegments axes T sc ! Suc i)"
      by blast
    then show "seg_length (calculateSegments axes T sc ! i)
        = seg_start (calculateSegments axes T sc ! Suc i) - seg_start (calculateSegments axes T sc ! i)"
      by linarith
  qed
  have lst: "seg_length (last (calculateSegments axes T sc))
      = T - seg_start (last (calculateSegments axes T sc))"
    using tiling_last [OF t ne] by linarith
  have total: "sum_list (map seg_length (calculateSegments axes T sc)) = T"
    using tiling_sum [OF t] by simp
  from ne asc pos first diff lst cont total show ?thesis by (intro conjI)
qed

theorem segments_partition_witness:
  "(0::real) < 400
   \<and> list_all (\<lambda>a. 0 \<le> axis_value a \<and> axis_value a \<le> 100)
         [\<lparr>axis_id = ''b'', axis_value = 75\<rparr>, \<lparr>axis_id = ''a'', axis_value = 25\<rparr>,
          \<lparr>axis_id = ''c'', axis_value = 75\<rparr>]
   \<and> calculateSegments [\<lparr>axis_id = ''b'', axis_value = 75\<rparr>, \<lparr>axis_id = ''a'', axis_value = 25\<rparr>,
                         \<lparr>axis_id = ''c'', axis_value = 75\<rparr>] 400 [False, True, False]
       = [\<lparr>seg_start = 0, seg_length = 100, isFixed = True, index = 0\<rparr>,
          \<lparr>seg_start = 100, seg_length = 200, isFixed = False, index = 1\<rparr>,
          \<lparr>seg_start = 300, seg_length = 100, isFixed = True, index = 3\<rparr>]
   \<and> sum_list (map seg_length (calculateSegments
        [\<lparr>axis_id = ''b'', axis_value = 75\<rparr>, \<lparr>axis_id = ''a'', axis_value = 25\<rparr>,
         \<lparr>axis_id = ''c'', axis_value = 75\<rparr>] 400 [False, True, False])) = 400"
  (is "_ \<and> list_all _ ?axes \<and> _")
proof -
  have pos: "(0::real) < 400" by simp
  have rng: "\<forall>a \<in> set ?axes. 0 \<le> axis_value a \<and> axis_value a \<le> 100" by simp
  have rng_all: "list_all (\<lambda>a. 0 \<le> axis_value a \<and> axis_value a \<le> 100) ?axes" by simp
  have ev: "calculateSegments ?axes 400 [False, True, False]
       = [\<lparr>seg_start = 0, seg_length = 100, isFixed = True, index = 0\<rparr>,
          \<lparr>seg_start = 100, seg_length = 200, isFixed = False, index = 1\<rparr>,
          \<lparr>seg_start = 300, seg_length = 100, isFixed = True, index = 3\<rparr>]"
    by (simp add: segments_eval)
  from segments_partition [OF pos rng, of "[False, True, False]"]
  have "sum_list (map seg_length (calculateSegments ?axes 400 [False, True, False])) = 400"
    by (elim conjE)
  with pos rng_all ev show ?thesis by blast
qed

theorem segments_partition_counterexample:
  "(0::real) < 100
   \<and> calculateSegments [\<lparr>axis_id = ''a'', axis_value = 150\<rparr>] 100 [False, True]
       = [\<lparr>seg_start = 0, seg_length = 150, isFixed = True, index = 0\<rparr>]
   \<and> sum_list (map seg_length (calculateSegments [\<lparr>axis_id = ''a'', axis_value = 150\<rparr>] 100 [False, True]))
       \<noteq> 100"
  by (simp add: segments_eval)

subsection \<open>Totality of the partitioner and of the layout engine\<close>




lemma dest_srcIndex:
  "map srcIndex (calculateDestinationSegments segs S) = map index segs"
  by (simp add: calculateDestinationSegments_def dest_loop_srcIndex)


lemma js_divide_nonzero: "y \<noteq> 0 \<Longrightarrow> js_divide x y = Some (x / y)"
  by (simp add: js_divide_def)


















subsection \<open>Export and re-import of the tile map\<close>

lemma digit_cases:
  "d < 10 \<Longrightarrow> d = 0 \<or> d = 1 \<or> d = 2 \<or> d = 3 \<or> d = 4 \<or> d = 5 \<or> d = 6 \<or> d = 7 \<or> d = 8 \<or> d = (9::nat)"
  by arith

lemma of_char_digit_char: "d < 10 \<Longrightarrow> (of_char (digit_char d) :: nat) = 48 + d"
proof -
  assume "d < 10"
  from digit_cases [OF this] show ?thesis
    by (elim disjE) (simp_all add: digit_char_def)
qed

lemma digit_char_inj:
  assumes "d < 10" and "e < 10" and "digit_char d = digit_char e"
  shows "d = e"
proof -
  have "(of_char (digit_char d) :: nat) = of_char (digit_char e)"
    using assms(3) by (rule arg_cong)
  then have "48 + d = 48 + e"
    by (simp only: of_char_digit_char [OF assms(1)] of_char_digit_char [OF assms(2)])
  then show ?thesis
    by (simp only: add_left_cancel)
qed

lemma digit_char_not_dash: "digit_char d \<noteq> CHR ''-''"
  by (simp add: digit_char_def)

lemma show_nat_not_Nil: "show_nat n \<noteq> []"
  by (subst show_nat.simps) simp

lemma dash_not_in_show_nat: "CHR ''-'' \<notin> set (show_nat n)"
proof (induction n rule: show_nat.induct)
  case (1 n)
  show ?case
  proof (cases "n < 10")
    case True
    then show ?thesis
      using digit_char_not_dash [of n] by (subst show_nat.simps) auto
  next
    case False
    with "1.IH" show ?thesis
      using digit_char_not_dash [of "n mod 10"] by (subst show_nat.simps) auto
  qed
qed

lemma show_nat_inj: "show_nat m = show_nat n \<Longrightarrow> m = n"
proof (induction m arbitrary: n rule: show_nat.induct)
  case (1 m)
  show ?case
  proof (cases "m < 10")
    case m: True
    show ?thesis
    proof (cases "n < 10")
      case True
      with m "1.prems" show ?thesis
        by (simp add: show_nat.simps [of m] show_nat.simps [of n] digit_char_inj)
    next
      case False
      with m "1.prems" show_nat_not_Nil [of "n div 10"] show ?thesis
        by (simp add: show_nat.simps [of m] show_nat.simps [of n])
    qed
  next
    case m: False
    show ?thesis
    proof (cases "n < 10")
      case True
      with m "1.prems" show_nat_not_Nil [of "m div 10"] show ?thesis
        by (simp add: show_nat.simps [of m] show_nat.simps [of n])
    next
      case False
      with m "1.prems" have pre: "show_nat (m div 10) = show_nat (n div 10)"
        and dig: "digit_char (m mod 10) = digit_char (n mod 10)"
        by (simp_all add: show_nat.simps [of m] show_nat.simps [of n])
      from "1.IH" [OF m pre] have q: "m div 10 = n div 10" .
      from dig have r: "m mod 10 = n mod 10"
        by (rule digit_char_inj [rotated 2]) simp_all
      have "m = m div 10 * 10 + m mod 10"
        by (rule div_mult_mod_eq [symmetric])
      also have "\<dots> = n div 10 * 10 + n mod 10"
        by (simp only: q r)
      also have "\<dots> = n"
        by (rule div_mult_mod_eq)
      finally show ?thesis .
    qed
  qed
qed

lemma tile_key_inj: "tile_key r c = tile_key r' c' \<longleftrightarrow> r = r' \<and> c = c'"
proof
  assume "tile_key r c = tile_key r' c'"
  then have eq: "show_nat r @ CHR ''-'' # show_nat c = show_nat r' @ CHR ''-'' # show_nat c'"
    by (simp add: tile_key_def)
  have "(show_nat r @ CHR ''-'' # show_nat c = show_nat r' @ CHR ''-'' # show_nat c')
      = (show_nat r = show_nat r' \<and> show_nat c = show_nat c')"
    by (rule append_Cons_eq_iff) (rule dash_not_in_show_nat)+
  then have "show_nat r = show_nat r' \<and> show_nat c = show_nat c'"
    using eq by (rule iffD1)
  then show "r = r' \<and> c = c'"
    using show_nat_inj [of r r'] show_nat_inj [of c c'] by (elim conjE) (intro conjI)
next
  assume "r = r' \<and> c = c'"
  then show "tile_key r c = tile_key r' c'" by simp
qed

lemma explicit_row_Suc:
  "explicit_row ts (Suc n) r m
     = (explicit_row ts n r m)(tile_key r n \<mapsto> \<lparr>mode = getEffectiveTileMode ts r n\<rparr>)"
  by (simp add: explicit_row_def)

lemma explicit_row_inside:
  "c < numCols \<Longrightarrow>
     explicit_row ts numCols r m (tile_key r c) = Some \<lparr>mode = getEffectiveTileMode ts r c\<rparr>"
proof (induction numCols)
  case 0
  then show ?case by simp
next
  case (Suc n)
  show ?case
  proof (cases "c = n")
    case True
    then show ?thesis by (simp add: explicit_row_Suc)
  next
    case False
    with Suc.prems have "c < n" by simp
    with Suc.IH False show ?thesis
      by (simp add: explicit_row_Suc tile_key_inj)
  qed
qed

lemma explicit_row_other:
  "r' \<noteq> r \<Longrightarrow> explicit_row ts numCols r m (tile_key r' c) = m (tile_key r' c)"
  by (induction numCols) (simp_all add: explicit_row_Suc tile_key_inj, simp add: explicit_row_def)

lemma explicit_tiles_Suc:
  "explicit_tiles ts (Suc n) numCols = explicit_row ts numCols n (explicit_tiles ts n numCols)"
  by (simp add: explicit_tiles_def)

lemma explicit_tiles_inside:
  "r < numRows \<Longrightarrow> c < numCols \<Longrightarrow>
     explicit_tiles ts numRows numCols (tile_key r c) = Some \<lparr>mode = getEffectiveTileMode ts r c\<rparr>"
proof (induction numRows)
  case 0
  then show ?case by simp
next
  case (Suc n)
  show ?case
  proof (cases "r = n")
    case True
    with Suc.prems show ?thesis
      by (simp add: explicit_tiles_Suc explicit_row_inside)
  next
    case False
    with Suc.prems have "r < n" by simp
    with Suc.IH Suc.prems False show ?thesis
      by (simp add: explicit_tiles_Suc explicit_row_other)
  qed
qed

text \<open>
  C3: exporting the document (which writes the effective mode of every cell of the grid
  into the tile map) and loading the result gives a tile map with the same effective mode
  as the original one at every cell inside the grid.
\<close>

theorem export_import_effective_mode:
  assumes "r < length (yAxes st) + 1" and "c < length (xAxes st) + 1"
  shows "getEffectiveTileMode (tiles (handleLoadJson (generateJSON st) st')) r c
           = getEffectiveTileMode (tiles st) r c"
proof -
  have loaded: "tiles (handleLoadJson (generateJSON st) st')
      = explicit_tiles (tiles st) (length (yAxes st) + 1) (length (xAxes st) + 1)"
    by (simp add: handleLoadJson_def generateJSON_def or_else_def)
  have dense: "explicit_tiles (tiles st) (length (yAxes st) + 1) (length (xAxes st) + 1) (tile_key r c)
      = Some \<lparr>mode = getEffectiveTileMode (tiles st) r c\<rparr>"
    using assms by (rule explicit_tiles_inside)
  have key: "tiles (handleLoadJson (generateJSON st) st') (tile_key r c)
      = Some \<lparr>mode = getEffectiveTileMode (tiles st) r c\<rparr>"
    by (simp only: loaded dense)
  show ?thesis
    unfolding getEffectiveTileMode_def [of "tiles (handleLoadJson (generateJSON st) st')"]
    by (simp add: key)
qed


lemma tile_key_2_0: "tile_key 2 0 = ''2-0''"
  by (simp add: tile_key_def show_nat.simps digit_char_def)

theorem export_import_effective_mode_witness:
  "2 < length (yAxes (initialState\<lparr>tiles := [''2-0'' \<mapsto> \<lparr>mode = Repeat\<rparr>]\<rparr>)) + 1
   \<and> 0 < length (xAxes (initialState\<lparr>tiles := [''2-0'' \<mapsto> \<lparr>mode = Repeat\<rparr>]\<rparr>)) + 1
   \<and> getEffectiveTileMode
         (tiles (handleLoadJson (generateJSON (initialState\<lparr>tiles := [''2-0'' \<mapsto> \<lparr>mode = Repeat\<rparr>]\<rparr>))
                   initialState)) 2 0
       = Repeat"
  (is "2 < length (yAxes ?st) + 1 \<and> _")
proof -
  have r: "2 < length (yAxes ?st) + 1" and c: "0 < length (xAxes ?st) + 1"
    by (simp_all add: initialState_def)
  have "getEffectiveTileMode (tiles ?st) 2 0 = Repeat"
    by (simp add: getEffectiveTileMode_def tile_key_2_0)
  with export_import_effective_mode [OF r c, of initialState]
  have "getEffectiveTileMode (tiles (handleLoadJson (generateJSON ?st) initialState)) 2 0 = Repeat"
    by (simp only:)
  with r c show ?thesis by (intro conjI)
qed

subsection \<open>Range of the axis values\<close>

lemma clamp_value:
  "min 100 (max 0 v) = (if v < 0 then 0 else if 100 < v then 100 else (v::real))"
  by (simp add: min_def max_def)

lemma entry_map_ids:
  "map axis_id (map (\<lambda>a. if axis_id a = i then a\<lparr>axis_value := c\<rparr> else a) xs) = map axis_id xs"
  by (induction xs) simp_all

lemma entry_map_value:
  "\<forall>a \<in> set (map (\<lambda>a. if axis_id a = i then a\<lparr>axis_value := c\<rparr> else a) xs).
      axis_id a = i \<longrightarrow> axis_value a = c"
proof (intro ballI impI)
  fix a
  assume mem: "a \<in> set (map (\<lambda>a. if axis_id a = i then a\<lparr>axis_value := c\<rparr> else a) xs)"
    and a: "axis_id a = i"
  from mem have "a \<in> (\<lambda>a. if axis_id a = i then a\<lparr>axis_value := c\<rparr> else a) ` set xs"
    by (simp only: set_map)
  then obtain b where b: "a = (if axis_id b = i then b\<lparr>axis_value := c\<rparr> else b)"
    by (rule imageE)
  show "axis_value a = c"
  proof (cases "axis_id b = i")
    case True
    with b have "a = b\<lparr>axis_value := c\<rparr>" by (simp only: simp_thms if_True)
    then show ?thesis by simp
  next
    case False
    with b have "a = b" by (simp only: if_False)
    with a False show ?thesis by (simp only:)
  qed
qed

lemma entry_map_range:
  assumes "\<forall>b \<in> set xs. 0 \<le> axis_value b \<and> axis_value b \<le> 100"
    and "0 \<le> c" and "c \<le> 100"
  shows "\<forall>a \<in> set (map (\<lambda>a. if axis_id a = i then a\<lparr>axis_value := c\<rparr> else a) xs).
      0 \<le> axis_value a \<and> axis_value a \<le> 100"
proof (intro ballI)
  fix a
  assume "a \<in> set (map (\<lambda>a. if axis_id a = i then a\<lparr>axis_value := c\<rparr> else a) xs)"
  then have "a \<in> (\<lambda>a. if axis_id a = i then a\<lparr>axis_value := c\<rparr> else a) ` set xs"
    by (simp only: set_map)
  then obtain b where b: "b \<in> set xs" "a = (if axis_id b = i then b\<lparr>axis_value := c\<rparr> else b)"
    by (rule imageE)
  show "0 \<le> axis_value a \<and> axis_value a \<le> 100"
  proof (cases "axis_id b = i")
    case True
    with b have "a = b\<lparr>axis_value := c\<rparr>" by (simp only: simp_thms if_True)
    with assms(2,3) show ?thesis by simp
  next
    case False
    with b have "a = b" by (simp only: if_False)
    with assms(1) b(1) show ?thesis by (simp only:)
  qed
qed

lemma clamp_bounds: "0 \<le> min 100 (max 0 (v::real))" "min 100 (max 0 (v::real)) \<le> 100"
  by simp_all

lemma updateAxisValue_xAxes:
  "xAxes (updateAxisValue i X (Some v) st)
     = map (\<lambda>a. if axis_id a = i then a\<lparr>axis_value := min 100 (max 0 v)\<rparr> else a) (xAxes st)"
  "yAxes (updateAxisValue i X p st) = yAxes st"
  "xAxes (updateAxisValue i t None st) = xAxes st"
  by (simp_all add: updateAxisValue_def split: option.splits)

lemma updateAxisValue_yAxes:
  "yAxes (updateAxisValue i Y (Some v) st)
     = map (\<lambda>a. if axis_id a = i then a\<lparr>axis_value := min 100 (max 0 v)\<rparr> else a) (yAxes st)"
  "xAxes (updateAxisValue i Y p st) = xAxes st"
  "yAxes (updateAxisValue i t None st) = yAxes st"
  by (simp_all add: updateAxisValue_def split: option.splits)

text \<open>
  Numeric entry clamps the entered value to \<open>[0, 100]\<close> and applies it (no axis is dropped,
  and an entry that does not parse changes nothing), so axis lists with values in
  \<open>[0, 100]\<close> stay so under numeric entry. Loading a document stores the axis lists of the
  document as they are.
\<close>

lemma entry_clamps_load_verbatim:
  "(\<forall>a \<in> set (xAxes (updateAxisValue i X (Some v) st)). axis_id a = i \<longrightarrow>
       axis_value a = (if v < 0 then 0 else if 100 < v then 100 else v)
       \<and> 0 \<le> axis_value a \<and> axis_value a \<le> 100)
   \<and> (\<forall>a \<in> set (yAxes (updateAxisValue i Y (Some v) st)). axis_id a = i \<longrightarrow>
       axis_value a = (if v < 0 then 0 else if 100 < v then 100 else v)
       \<and> 0 \<le> axis_value a \<and> axis_value a \<le> 100)
   \<and> map axis_id (xAxes (updateAxisValue i t p st)) = map axis_id (xAxes st)
   \<and> map axis_id (yAxes (updateAxisValue i t p st)) = map axis_id (yAxes st)
   \<and> updateAxisValue i t None st = st
   \<and> ((\<forall>a \<in> set (xAxes st). 0 \<le> axis_value a \<and> axis_value a \<le> 100) \<longrightarrow>
        (\<forall>a \<in> set (xAxes (updateAxisValue i t p st)). 0 \<le> axis_value a \<and> axis_value a \<le> 100))
   \<and> ((\<forall>a \<in> set (yAxes st). 0 \<le> axis_value a \<and> axis_value a \<le> 100) \<longrightarrow>
        (\<forall>a \<in> set (yAxes (updateAxisValue i t p st)). 0 \<le> axis_value a \<and> axis_value a \<le> 100))
   \<and> xAxes (handleLoadJson config st) = (case cfg_xAxes config of Some as \<Rightarrow> as | None \<Rightarrow> [])
   \<and> yAxes (handleLoadJson config st) = (case cfg_yAxes config of Some as \<Rightarrow> as | None \<Rightarrow> [])"
proof -
  have x: "\<forall>a \<in> set (xAxes (updateAxisValue i X (Some v) st)). axis_id a = i \<longrightarrow>
       axis_value a = (if v < 0 then 0 else if 100 < v then 100 else v)
       \<and> 0 \<le> axis_value a \<and> axis_value a \<le> 100"
  proof (intro ballI impI)
    fix a assume "a \<in> set (xAxes (updateAxisValue i X (Some v) st))" and "axis_id a = i"
    with entry_map_value [of i "min 100 (max 0 v)" "xAxes st"]
    have "axis_value a = min 100 (max 0 v)"
      by (simp only: updateAxisValue_xAxes)
    then show "axis_value a = (if v < 0 then 0 else if 100 < v then 100 else v)
       \<and> 0 \<le> axis_value a \<and> axis_value a \<le> 100"
      using clamp_value [of v] clamp_bounds [of v] by (simp only:)
  qed
  have y: "\<forall>a \<in> set (yAxes (updateAxisValue i Y (Some v) st)). axis_id a = i \<longrightarrow>
       axis_value a = (if v < 0 then 0 else if 100 < v then 100 else v)
       \<and> 0 \<le> axis_value a \<and> axis_value a \<le> 100"
  proof (intro ballI impI)
    fix a assume "a \<in> set (yAxes (updateAxisValue i Y (Some v) st))" and "axis_id a = i"
    with entry_map_value [of i "min 100 (max 0 v)" "yAxes st"]
    have "axis_value a = min 100 (max 0 v)"
      by (simp only: updateAxisValue_yAxes)
    then show "axis_value a = (if v < 0 then 0 else if 100 < v then 100 else v)
       \<and> 0 \<le> axis_value a \<and> axis_value a \<le> 100"
      using clamp_value [of v] clamp_bounds [of v] by (simp only:)
  qed
  have idx: "map axis_id (xAxes (updateAxisValue i t p st)) = map axis_id (xAxes st)"
  proof (cases p)
    case None
    then show ?thesis by (simp only: updateAxisValue_xAxes)
  next
    case (Some w)
    then show ?thesis
      by (cases t) (simp_all only: updateAxisValue_xAxes updateAxisValue_yAxes entry_map_ids)
  qed
  have idy: "map axis_id (yAxes (updateAxisValue i t p st)) = map axis_id (yAxes st)"
  proof (cases p)
    case None
    then show ?thesis by (simp only: updateAxisValue_yAxes)
  next
    case (Some w)
    then show ?thesis
      by (cases t) (simp_all only: updateAxisValue_xAxes updateAxisValue_yAxes entry_map_ids)
  qed
  have nan: "updateAxisValue i t None st = st"
    by (simp add: updateAxisValue_def)
  have px: "(\<forall>a \<in> set (xAxes st). 0 \<le> axis_value a \<and> axis_value a \<le> 100) \<longrightarrow>
        (\<forall>a \<in> set (xAxes (updateAxisValue i t p st)). 0 \<le> axis_value a \<and> axis_value a \<le> 100)"
  proof
    assume inv: "\<forall>a \<in> set (xAxes st). 0 \<le> axis_value a \<and> axis_value a \<le> 100"
    show "\<forall>a \<in> set (xAxes (updateAxisValue i t p st)). 0 \<le> axis_value a \<and> axis_value a \<le> 100"
    proof (cases p)
      case None
      with inv show ?thesis by (simp only: updateAxisValue_xAxes)
    next
      case (Some w)
      show ?thesis
      proof (cases t)
        case X
        with Some entry_map_range [OF inv clamp_bounds [of w], of i] show ?thesis
          by (simp only: updateAxisValue_xAxes)
      next
        case Y
        with inv show ?thesis by (simp only: updateAxisValue_yAxes)
      qed
    qed
  qed
  have py: "(\<forall>a \<in> set (yAxes st). 0 \<le> axis_value a \<and> axis_value a \<le> 100) \<longrightarrow>
        (\<forall>a \<in> set (yAxes (updateAxisValue i t p st)). 0 \<le> axis_value a \<and> axis_value a \<le> 100)"
  proof
    assume inv: "\<forall>a \<in> set (yAxes st). 0 \<le> axis_value a \<and> axis_value a \<le> 100"
    show "\<forall>a \<in> set (yAxes (updateAxisValue i t p st)). 0 \<le> axis_value a \<and> axis_value a \<le> 100"
    proof (cases p)
      case None
      with inv show ?thesis by (simp only: updateAxisValue_yAxes)
    next
      case (Some w)
      show ?thesis
      proof (cases t)
        case Y
        with Some entry_map_range [OF inv clamp_bounds [of w], of i] show ?thesis
          by (simp only: updateAxisValue_yAxes)
      next
        case X
        with inv show ?thesis by (simp only: updateAxisValue_xAxes)
      qed
    qed
  qed
  have lx: "xAxes (handleLoadJson config st) = (case cfg_xAxes config of Some as \<Rightarrow> as | None \<Rightarrow> [])"
    by (simp add: handleLoadJson_def or_else_def)
  have ly: "yAxes (handleLoadJson config st) = (case cfg_yAxes config of Some as \<Rightarrow> as | None \<Rightarrow> [])"
    by (simp add: handleLoadJson_def or_else_def)
  from x y idx idy nan px py lx ly show ?thesis by (intro conjI)
qed

lemma entry_clamps_example:
  "map axis_value (xAxes (updateAxisValue ''x2'' X (Some 250) initialState)) = [33, 100]"
  by (simp add: updateAxisValue_def initialState_def)

text \<open>
  C6: every axis value is to stay in \<open>[0, 100]\<close> under every operation that sets it. Numeric
  entry clamps, as shown above. Loading does not: a document whose only x-axis has the
  value 150 is loaded with that value, outside \<open>[0, 100]\<close>, and the segments that
  \<open>calculateSegments\<close> then cuts from an image 100 pixels wide have a total length of 150.
\<close>

theorem load_keeps_out_of_range_value:
  "map axis_value (xAxes (handleLoadJson
       \<lparr>cfg_filename = None, cfg_xAxes = Some [\<lparr>axis_id = ''a'', axis_value = 150\<rparr>],
        cfg_yAxes = Some [], cfg_tiles = None, cfg_rowScaling = None, cfg_colScaling = None\<rparr>
       initialState)) = [150]
   \<and> \<not> (150::real) \<le> 100
   \<and> colScaling (handleLoadJson
       \<lparr>cfg_filename = None, cfg_xAxes = Some [\<lparr>axis_id = ''a'', axis_value = 150\<rparr>],
        cfg_yAxes = Some [], cfg_tiles = None, cfg_rowScaling = None, cfg_colScaling = None\<rparr>
       initialState) = [False, True]
   \<and> calculateSegments (xAxes (handleLoadJson
       \<lparr>cfg_filename = None, cfg_xAxes = Some [\<lparr>axis_id = ''a'', axis_value = 150\<rparr>],
        cfg_yAxes = Some [], cfg_tiles = None, cfg_rowScaling = None, cfg_colScaling = None\<rparr>
       initialState)) 100 [False, True]
     = [\<lparr>seg_start = 0, seg_length = 150, isFixed = True, index = 0\<rparr>]"
  by (simp add: handleLoadJson_def or_else_def generateDefaultScaling_def upt_rec segments_eval)

subsection \<open>Scaling flags under adding and deleting an axis\<close>














end
